theory Spec2Isabelle
  imports Main "HOL-Library.Multiset" "HOL-Library.Char_ord" "HOL-Library.List_Lexorder"
begin

section \<open>The like-exchange ledger of \<^verbatim>\<open>main.py\<close>\<close>

text \<open>
  The program keeps two SQLite tables, \<^verbatim>\<open>users\<close> and \<^verbatim>\<open>requests\<close>, and every
  endpoint is a short sequence of \<^verbatim>\<open>SELECT\<close>, \<^verbatim>\<open>INSERT\<close> and \<^verbatim>\<open>UPDATE\<close>
  statements on them. The model keeps each table as the list of its rows in insertion order:
  a \<^verbatim>\<open>SELECT ... WHERE\<close> is a \<open>filter\<close>, an \<^verbatim>\<open>INSERT\<close> appends a row and an
  \<^verbatim>\<open>UPDATE ... WHERE\<close> maps over the rows. Each endpoint is run as one sequential unit;
  \<^verbatim>\<open>datetime.utcnow().isoformat()\<close> is an input \<open>now\<close> of the endpoints that read it.
\<close>

subsection \<open>Strings\<close>

text \<open>
  A Python \<^verbatim>\<open>str\<close> is a sequence of Unicode code points. The strings the handlers only store,
  return or compare (names, URLs, timestamps, statuses, messages) are kept as \<open>string\<close>; the
  region, the one string whose characters are mapped, is kept as the list of its code points.
\<close>

type_synonym codepoints = "nat list"

subsection \<open>Tables\<close>

text \<open>Columns of \<^verbatim>\<open>users\<close>; \<^verbatim>\<open>points\<close> and \<^verbatim>\<open>is_vip\<close> default to 0.\<close>

record user =
  u_id :: int
  u_telegram_id :: int
  u_username :: string
  u_points :: int
  u_is_vip :: int
  u_created_at :: string

text \<open>
  Columns of \<^verbatim>\<open>requests\<close>. \<^verbatim>\<open>status\<close> is a \<^verbatim>\<open>TEXT\<close> column; the columns that
  \<^verbatim>\<open>create_request\<close> does not insert are \<^verbatim>\<open>NULL\<close>, here \<open>None\<close>.
\<close>

record request =
  r_id :: int
  r_owner_id :: int
  r_uid :: string
  r_region :: codepoints
  r_proof_url :: string
  r_points_requested :: int
  r_status :: string
  r_created_at :: string
  r_claimed_by :: "int option"
  r_claim_proof_url :: "string option"
  r_completed_at :: "string option"

record db =
  users :: "user list"
  requests :: "request list"

text \<open>\<^verbatim>\<open>init_db\<close> on a fresh file: both tables exist and are empty.\<close>

definition init_db :: db where
  "init_db = \<lparr>users = [], requests = []\<rparr>"

text \<open>
  \<^verbatim>\<open>INTEGER PRIMARY KEY AUTOINCREMENT\<close>: the new row id is one more than the largest
  row id the table has had (the sequence starts at 0). The program never deletes a row, so
  that is the largest id present.
\<close>

definition next_rowid :: "int list \<Rightarrow> int" where
  "next_rowid ids = fold max ids 0 + 1"

text \<open>\<^verbatim>\<open>SELECT ... FROM users WHERE telegram_id = ?\<close>\<close>

definition select_users :: "db \<Rightarrow> int \<Rightarrow> user list" where
  "select_users s telegram_id = filter (\<lambda>u. u_telegram_id u = telegram_id) (users s)"

text \<open>\<^verbatim>\<open>SELECT ... FROM requests WHERE id = ?\<close>\<close>

definition select_requests :: "db \<Rightarrow> int \<Rightarrow> request list" where
  "select_requests s request_id = filter (\<lambda>r. r_id r = request_id) (requests s)"

text \<open>\<^verbatim>\<open>UPDATE users SET points = points + ? WHERE id = ?\<close>\<close>

definition add_points_by_id :: "int \<Rightarrow> int \<Rightarrow> user list \<Rightarrow> user list" where
  "add_points_by_id n uid us =
     map (\<lambda>u. if u_id u = uid then u\<lparr>u_points := u_points u + n\<rparr> else u) us"

text \<open>\<^verbatim>\<open>UPDATE users SET points = points + ? WHERE telegram_id = ?\<close>\<close>

definition add_points_by_telegram_id :: "int \<Rightarrow> int \<Rightarrow> user list \<Rightarrow> user list" where
  "add_points_by_telegram_id n tid us =
     map (\<lambda>u. if u_telegram_id u = tid then u\<lparr>u_points := u_points u + n\<rparr> else u) us"

text \<open>\<^verbatim>\<open>UPDATE requests SET status = ?, claimed_by = ? WHERE id = ?\<close> with status \<open>claimed\<close>\<close>

definition set_claimed :: "int \<Rightarrow> int \<Rightarrow> request list \<Rightarrow> request list" where
  "set_claimed claimer_id rid rs =
     map (\<lambda>q. if r_id q = rid
               then q\<lparr>r_status := ''claimed'', r_claimed_by := Some claimer_id\<rparr> else q) rs"

text \<open>
  \<^verbatim>\<open>UPDATE requests SET status = ?, claim_proof_url = ?, completed_at = ? WHERE id = ?\<close>
  with status \<open>completed\<close>
\<close>

definition set_completed :: "string \<Rightarrow> string \<Rightarrow> int \<Rightarrow> request list \<Rightarrow> request list" where
  "set_completed url now rid rs =
     map (\<lambda>q. if r_id q = rid
               then q\<lparr>r_status := ''completed'', r_claim_proof_url := Some url,
                       r_completed_at := Some now\<rparr> else q) rs"

subsection \<open>Errors and responses\<close>

text \<open>
  A handler raises \<^verbatim>\<open>HTTPException(status_code, detail)\<close>; a body that fails the
  constraints of its schema is rejected by the framework before the handler runs
  (\<open>RequestValidationError\<close>, status 422). A successful handler returns its message.
\<close>

datatype error = HTTPException nat string | RequestValidationError

type_synonym response = string

subsection \<open>Endpoints\<close>

text \<open>\<^verbatim>\<open>POST /register\<close>. \<^verbatim>\<open>payload.username or ""\<close> turns a missing name into the empty string.\<close>

definition register :: "db \<Rightarrow> string \<Rightarrow> int \<Rightarrow> string option \<Rightarrow> response \<times> db" where
  "register s now telegram_id username =
     (if select_users s telegram_id \<noteq> [] then (''Already registered'', s)
      else (''Registered'',
            s\<lparr>users := users s @
               [\<lparr>u_id = next_rowid (map u_id (users s)),
                 u_telegram_id = telegram_id,
                 u_username = (case username of None \<Rightarrow> [] | Some n \<Rightarrow> n),
                 u_points = 0, u_is_vip = 0, u_created_at = now\<rparr>]\<rparr>))"

text \<open>\<^verbatim>\<open>GET /user/points/{telegram_id}\<close>\<close>

definition get_points :: "db \<Rightarrow> int \<Rightarrow> error + int" where
  "get_points s telegram_id =
     (case select_users s telegram_id of
        [] \<Rightarrow> Inl (HTTPException 404 ''User not found'')
      | u # _ \<Rightarrow> Inr (u_points u))"

text \<open>
  \<^verbatim>\<open>str.upper\<close> replaces each code point by its full upper-case mapping, which may be
  several code points (U+00DF becomes \<open>SS\<close>), and concatenates the results. On ASCII the
  mapping is fixed: the letters \<open>a\<close> to \<open>z\<close> (97..122) go to \<open>A\<close> to \<open>Z\<close> and every other
  code point below 128 stays. Above ASCII the mapping is read from the Unicode character
  database of the Python build; it is the parameter \<open>upper_full\<close>.
\<close>

definition ascii_upper :: "nat \<Rightarrow> nat" where
  "ascii_upper c = (if 97 \<le> c \<and> c \<le> 122 then c - 32 else c)"

definition upper :: "(nat \<Rightarrow> codepoints) \<Rightarrow> codepoints \<Rightarrow> codepoints" where
  "upper upper_full region =
     concat (map (\<lambda>c. if c < 128 then [ascii_upper c] else upper_full c) region)"

text \<open>
  The handler of \<^verbatim>\<open>POST /request/create\<close>. Both raises come before the first write.
  \<open>proof_url\<close> is \<^verbatim>\<open>str(payload.proof_url)\<close>.
\<close>

definition create_request ::
  "(nat \<Rightarrow> codepoints) \<Rightarrow> db \<Rightarrow> string \<Rightarrow> int \<Rightarrow> string \<Rightarrow> codepoints \<Rightarrow> string \<Rightarrow> int \<Rightarrow>
   (error + response) \<times> db" where
  "create_request upper_full s now telegram_id uid region proof_url points =
     (case select_users s telegram_id of
        [] \<Rightarrow> (Inl (HTTPException 404 ''User not registered''), s)
      | u # _ \<Rightarrow>
          if u_points u < points
          then (Inl (HTTPException 400 ''Not enough points to post request''), s)
          else (Inr ''Request created and points staked'',
                s\<lparr>requests := requests s @
                     [\<lparr>r_id = next_rowid (map r_id (requests s)),
                       r_owner_id = u_id u, r_uid = uid, r_region = upper upper_full region,
                       r_proof_url = proof_url, r_points_requested = points,
                       r_status = ''open'', r_created_at = now, r_claimed_by = None,
                       r_claim_proof_url = None, r_completed_at = None\<rparr>],
                   users := add_points_by_id (- points) (u_id u) (users s)\<rparr>))"

text \<open>
  The route: \<^verbatim>\<open>CreateRequestIn\<close> declares \<^verbatim>\<open>points: int = Field(..., ge=1, le=100)\<close>,
  so a body with \<open>points\<close> outside 1..100 never reaches the handler.
\<close>

definition post_request_create ::
  "(nat \<Rightarrow> codepoints) \<Rightarrow> db \<Rightarrow> string \<Rightarrow> int \<Rightarrow> string \<Rightarrow> codepoints \<Rightarrow> string \<Rightarrow> int \<Rightarrow>
   (error + response) \<times> db" where
  "post_request_create upper_full s now telegram_id uid region proof_url points =
     (if 1 \<le> points \<and> points \<le> 100
      then create_request upper_full s now telegram_id uid region proof_url points
      else (Inl RequestValidationError, s))"

text \<open>\<^verbatim>\<open>POST /request/claim\<close>\<close>

definition claim :: "db \<Rightarrow> int \<Rightarrow> int \<Rightarrow> (error + response) \<times> db" where
  "claim s telegram_id request_id =
     (case select_requests s request_id of
        [] \<Rightarrow> (Inl (HTTPException 404 ''Request not found''), s)
      | r # _ \<Rightarrow>
          if r_status r \<noteq> ''open'' then (Inl (HTTPException 400 ''Request not open''), s)
          else (case select_users s telegram_id of
                  [] \<Rightarrow> (Inl (HTTPException 404 ''Claimer not registered''), s)
                | c # _ \<Rightarrow>
                    if u_id c = r_owner_id r
                    then (Inl (HTTPException 400 ''Owner cannot claim own request''), s)
                    else (Inr ''Request claimed. Confirm with /request/confirm after liking'',
                          s\<lparr>requests := set_claimed (u_id c) (r_id r) (requests s)\<rparr>)))"

text \<open>
  \<^verbatim>\<open>POST /request/confirm\<close>. \<open>claim_proof_url\<close> is \<^verbatim>\<open>str(payload.claim_proof_url)\<close>.
  \<^verbatim>\<open>claimer_id != claimed_by\<close> compares an integer with a column that may be \<^verbatim>\<open>NULL\<close>.
\<close>

definition confirm :: "db \<Rightarrow> string \<Rightarrow> int \<Rightarrow> int \<Rightarrow> string \<Rightarrow> (error + response) \<times> db" where
  "confirm s now telegram_id request_id claim_proof_url =
     (case select_requests s request_id of
        [] \<Rightarrow> (Inl (HTTPException 404 ''Request not found''), s)
      | r # _ \<Rightarrow>
          if r_status r \<noteq> ''claimed''
          then (Inl (HTTPException 400 ''Request not in claimed state''), s)
          else (case select_users s telegram_id of
                  [] \<Rightarrow> (Inl (HTTPException 404 ''Claimer not registered''), s)
                | c # _ \<Rightarrow>
                    if Some (u_id c) \<noteq> r_claimed_by r
                    then (Inl (HTTPException 403 ''Only claimer can confirm''), s)
                    else (Inr ''Confirmed. Points awarded to claimer'',
                          s\<lparr>requests := set_completed claim_proof_url now (r_id r) (requests s),
                             users := add_points_by_id (r_points_requested r) (u_id c)
                                        (users s)\<rparr>)))"

text \<open>\<^verbatim>\<open>POST /admin/add_points\<close>. \<open>points\<close> is any integer: the body declares no bound.\<close>

definition admin_add_points :: "db \<Rightarrow> int \<Rightarrow> int \<Rightarrow> string \<Rightarrow> (error + response) \<times> db" where
  "admin_add_points s telegram_id points secret =
     (if secret \<noteq> ''CHANGE_THIS_SECRET'' then (Inl (HTTPException 401 ''Unauthorized''), s)
      else if select_users s telegram_id = [] then (Inl (HTTPException 404 ''User not found''), s)
      else (Inr ''Points added successfully'',
            s\<lparr>users := add_points_by_telegram_id points telegram_id (users s)\<rparr>))"






subsection \<open>Sequences of calls\<close>

datatype call =
    Register string int "string option"
  | RequestCreate string int string codepoints string int
  | RequestClaim int int
  | RequestConfirm string int int string
  | AdminAddPoints int int string

text \<open>The calls run against one Python build, so with one table \<open>upper_full\<close>.\<close>

fun exec :: "(nat \<Rightarrow> codepoints) \<Rightarrow> db \<Rightarrow> call \<Rightarrow> db" where
  "exec upper_full s (Register now t n) = snd (register s now t n)"
| "exec upper_full s (RequestCreate now t uid region url p) =
     snd (post_request_create upper_full s now t uid region url p)"
| "exec upper_full s (RequestClaim t rid) = snd (claim s t rid)"
| "exec upper_full s (RequestConfirm now t rid url) = snd (confirm s now t rid url)"
| "exec upper_full s (AdminAddPoints t p secret) = snd (admin_add_points s t p secret)"

fun run :: "(nat \<Rightarrow> codepoints) \<Rightarrow> db \<Rightarrow> call list \<Rightarrow> db" where
  "run upper_full s [] = s"
| "run upper_full s (c # cs) = run upper_full (exec upper_full s c) cs"

subsection \<open>What every reachable database satisfies\<close>

text \<open>
  Row ids and \<^verbatim>\<open>telegram_id\<close>s are unique (the tables declare them \<^verbatim>\<open>PRIMARY KEY\<close> and
  \<^verbatim>\<open>UNIQUE\<close>; here it follows from how rows are inserted), a stake is within 1..100, a status
  is one of the three the handlers write, and an open request has no claimant.
\<close>

definition request_ok :: "request \<Rightarrow> bool" where
  "request_ok r \<longleftrightarrow>
     1 \<le> r_points_requested r \<and> r_points_requested r \<le> 100 \<and>
     (r_status r = ''open'' \<or> r_status r = ''claimed'' \<or> r_status r = ''completed'') \<and>
     (r_status r = ''open'' \<longrightarrow> r_claimed_by r = None)"

definition consistent :: "db \<Rightarrow> bool" where
  "consistent s \<longleftrightarrow>
     distinct (map u_id (users s)) \<and>
     distinct (map u_telegram_id (users s)) \<and>
     distinct (map r_id (requests s)) \<and>
     (\<forall>r \<in> set (requests s). request_ok r)"


text \<open>The sum of all balances, and the sum of the stakes of the requests not yet completed.\<close>

definition total_points :: "db \<Rightarrow> int" where
  "total_points s = sum_list (map u_points (users s))"

definition escrow :: "db \<Rightarrow> int" where
  "escrow s =
     sum_list (map r_points_requested
       (filter (\<lambda>r. r_status r = ''open'' \<or> r_status r = ''claimed'') (requests s)))"

definition all_points :: "db \<Rightarrow> int" where
  "all_points s = total_points s + escrow s"

definition nonnegative :: "db \<Rightarrow> bool" where
  "nonnegative s \<longleftrightarrow> (\<forall>u \<in> set (users s). 0 \<le> u_points u)"

text \<open>The place of a status in the lifecycle, and the moves one call may make.\<close>

definition status_rank :: "string \<Rightarrow> nat" where
  "status_rank st = (if st = ''open'' then 0 else if st = ''claimed'' then 1 else 2)"

definition forward :: "string \<Rightarrow> string \<Rightarrow> bool" where
  "forward a b \<longleftrightarrow>
     a = b \<or> (a = ''open'' \<and> b = ''claimed'') \<or> (a = ''claimed'' \<and> b = ''completed'')"

text \<open>What a call leaves of a request row: its id and stake, and its claimant once it has one.\<close>

definition keeps :: "request \<Rightarrow> request \<Rightarrow> bool" where
  "keeps r r' \<longleftrightarrow>
     r_id r' = r_id r \<and> r_points_requested r' = r_points_requested r \<and>
     (r_claimed_by r \<noteq> None \<longrightarrow> r_claimed_by r' = r_claimed_by r)"

text \<open>A call whose admin adjustment, if it is one, does not subtract.\<close>

fun adds_only :: "call \<Rightarrow> bool" where
  "adds_only (AdminAddPoints t p secret) = (0 \<le> p)"
| "adds_only _ = True"


text \<open>What a request row adds to the escrow.\<close>

definition stake :: "request \<Rightarrow> int" where
  "stake r = (if r_status r = ''open'' \<or> r_status r = ''claimed'' then r_points_requested r else 0)"

subsection \<open>The end-to-end run\<close>

text \<open>
  A registers and is granted 50 points, B registers; A posts a request for 30 points in region
  \<open>ind\<close> (code points 105, 110, 100); B claims it. The rows these calls leave are
  \<open>user_a\<close>, \<open>user_b\<close> and \<open>request_1\<close>, whose region is \<open>IND\<close> (73, 78, 68). The run
  has no code point above ASCII, so any table serves; \<open>plain_table\<close> maps none.
\<close>

definition plain_table :: "nat \<Rightarrow> codepoints" where
  "plain_table c = [c]"

definition calls_funded :: "call list" where
  "calls_funded =
     [Register ''2024-01-01T10:00:00'' 1 (Some ''A''),
      AdminAddPoints 1 50 ''CHANGE_THIS_SECRET'',
      Register ''2024-01-01T10:01:00'' 2 None]"

definition calls_open :: "call list" where
  "calls_open = calls_funded @
     [RequestCreate ''2024-01-01T10:02:00'' 1 ''2476897412'' [105, 110, 100] ''https://example.com/p'' 30]"

definition calls_claimed :: "call list" where
  "calls_claimed = calls_open @ [RequestClaim 2 1]"

definition user_a :: "int \<Rightarrow> user" where
  "user_a b = \<lparr>u_id = 1, u_telegram_id = 1, u_username = ''A'', u_points = b, u_is_vip = 0,
     u_created_at = ''2024-01-01T10:00:00''\<rparr>"

definition user_b :: "int \<Rightarrow> user" where
  "user_b b = \<lparr>u_id = 2, u_telegram_id = 2, u_username = [], u_points = b, u_is_vip = 0,
     u_created_at = ''2024-01-01T10:01:00''\<rparr>"

definition request_1 :: "string \<Rightarrow> int option \<Rightarrow> request" where
  "request_1 st c = \<lparr>r_id = 1, r_owner_id = 1, r_uid = ''2476897412'', r_region = [73, 78, 68],
     r_proof_url = ''https://example.com/p'', r_points_requested = 30, r_status = st,
     r_created_at = ''2024-01-01T10:02:00'', r_claimed_by = c, r_claim_proof_url = None,
     r_completed_at = None\<rparr>"



section \<open>Lemmas\<close>

subsection \<open>Row ids and lookups\<close>

lemma fold_max_ge: "(a::int) \<le> fold max xs a"
  by (induction xs arbitrary: a) (auto intro: order_trans [OF max.cobounded2])

lemma fold_max_mem: "x \<in> set xs \<Longrightarrow> (x::int) \<le> fold max xs a"
proof (induction xs arbitrary: a)
  case Nil then show ?case by simp
next
  case (Cons y ys)
  show ?case
  proof (cases "x = y")
    case True
    have "max y a \<le> fold max ys (max y a)" by (rule fold_max_ge)
    with True show ?thesis by simp
  next
    case False
    with Cons show ?thesis by simp
  qed
qed

lemma next_rowid_fresh: "next_rowid ids \<notin> set ids"
  using fold_max_mem [of "next_rowid ids" ids 0] by (auto simp: next_rowid_def)

lemma filter_key_distinct:
  "distinct (map f xs) \<Longrightarrow> x \<in> set xs \<Longrightarrow> filter (\<lambda>y. f y = f x) xs = [x]"
proof (induction xs)
  case Nil then show ?case by simp
next
  case (Cons y ys)
  show ?case
  proof (cases "x = y")
    case True
    with Cons.prems have "\<forall>z \<in> set ys. f z \<noteq> f y" by (auto simp: image_iff)
    then have "filter (\<lambda>z. f z = f y) ys = []" by (simp add: filter_empty_conv)
    with True show ?thesis by simp
  next
    case False
    with Cons.prems have "x \<in> set ys" "f y \<noteq> f x" by (auto simp: image_iff)
    with Cons show ?thesis by simp
  qed
qed

lemma key_distinct_eq:
  "distinct (map f xs) \<Longrightarrow> x \<in> set xs \<Longrightarrow> y \<in> set xs \<Longrightarrow> f x = f y \<Longrightarrow> x = y"
  by (meson distinct_map inj_onD)

lemma distinct_rows: "distinct (map f xs) \<Longrightarrow> distinct xs"
  by (simp add: distinct_map)

lemma select_users_mem:
  "consistent s \<Longrightarrow> u \<in> set (users s) \<Longrightarrow> select_users s (u_telegram_id u) = [u]"
  unfolding select_users_def consistent_def by (simp add: filter_key_distinct)

lemma select_requests_mem:
  "consistent s \<Longrightarrow> r \<in> set (requests s) \<Longrightarrow> select_requests s (r_id r) = [r]"
  unfolding select_requests_def consistent_def by (simp add: filter_key_distinct)

lemma filter_hd_mem: "filter P xs = y # ys \<Longrightarrow> y \<in> set xs \<and> P y"
proof -
  assume "filter P xs = y # ys"
  then have "y \<in> set (filter P xs)" by simp
  then show ?thesis by simp
qed

lemma select_users_hd:
  "select_users s t = u # us \<Longrightarrow> u \<in> set (users s) \<and> u_telegram_id u = t"
  unfolding select_users_def by (rule filter_hd_mem)

lemma select_requests_hd:
  "select_requests s i = r # rs \<Longrightarrow> r \<in> set (requests s) \<and> r_id r = i"
  unfolding select_requests_def by (rule filter_hd_mem)

subsection \<open>The updates keep the keys\<close>

lemma map_u_id_add_by_id [simp]: "map u_id (add_points_by_id n i us) = map u_id us"
  by (induction us) (auto simp: add_points_by_id_def)

lemma map_u_tid_add_by_id [simp]:
  "map u_telegram_id (add_points_by_id n i us) = map u_telegram_id us"
  by (induction us) (auto simp: add_points_by_id_def)

lemma map_u_id_add_by_tid [simp]: "map u_id (add_points_by_telegram_id n i us) = map u_id us"
  by (induction us) (auto simp: add_points_by_telegram_id_def)

lemma map_u_tid_add_by_tid [simp]:
  "map u_telegram_id (add_points_by_telegram_id n i us) = map u_telegram_id us"
  by (induction us) (auto simp: add_points_by_telegram_id_def)

lemma map_r_id_set_claimed [simp]: "map r_id (set_claimed c i rs) = map r_id rs"
  by (induction rs) (auto simp: set_claimed_def)

lemma map_r_id_set_completed [simp]: "map r_id (set_completed u n i rs) = map r_id rs"
  by (induction rs) (auto simp: set_completed_def)

lemma request_ok_set_claimed:
  "Ball (set rs) request_ok \<Longrightarrow> Ball (set (set_claimed c i rs)) request_ok"
  by (auto simp: set_claimed_def request_ok_def)

lemma request_ok_set_completed:
  "Ball (set rs) request_ok \<Longrightarrow> Ball (set (set_completed u n i rs)) request_ok"
  by (auto simp: set_completed_def request_ok_def)

subsection \<open>Every reachable database is consistent\<close>

lemma consistent_init: "consistent init_db"
  by (simp add: consistent_def init_db_def)

lemma consistent_register: "consistent s \<Longrightarrow> consistent (snd (register s now t n))"
proof -
  assume c: "consistent s"
  show ?thesis
  proof (cases "select_users s t = []")
    case False
    with c show ?thesis by (simp add: register_def)
  next
    case True
    then have "t \<notin> set (map u_telegram_id (users s))"
      by (auto simp: select_users_def filter_empty_conv)
    with c True show ?thesis
      using next_rowid_fresh [of "map u_id (users s)"]
      by (simp add: register_def consistent_def)
  qed
qed

lemma consistent_create_request:
  assumes "consistent s" "1 \<le> p" "p \<le> 100"
  shows "consistent (snd (create_request U s now t uid region url p))"
proof (cases "select_users s t")
  case Nil
  with assms show ?thesis by (simp add: create_request_def)
next
  case (Cons u us)
  with assms show ?thesis
    using next_rowid_fresh [of "map r_id (requests s)"]
    by (simp add: create_request_def consistent_def request_ok_def)
qed

lemma consistent_post_request_create:
  "consistent s \<Longrightarrow> consistent (snd (post_request_create U s now t uid region url p))"
  by (simp add: post_request_create_def consistent_create_request)

lemma consistent_claim: "consistent s \<Longrightarrow> consistent (snd (claim s t rid))"
  by (auto simp: claim_def consistent_def split: list.splits
        intro: request_ok_set_claimed [THEN bspec])

lemma consistent_confirm: "consistent s \<Longrightarrow> consistent (snd (confirm s now t rid url))"
  by (auto simp: confirm_def consistent_def split: list.splits
        intro: request_ok_set_completed [THEN bspec])

lemma consistent_admin: "consistent s \<Longrightarrow> consistent (snd (admin_add_points s t p secret))"
  by (simp add: admin_add_points_def consistent_def)

lemma consistent_exec: "consistent s \<Longrightarrow> consistent (exec U s c)"
  by (cases c)
     (simp_all add: consistent_register consistent_post_request_create consistent_claim
        consistent_confirm consistent_admin)

lemma consistent_run: "consistent s \<Longrightarrow> consistent (run U s cs)"
  by (induction cs arbitrary: s) (simp_all add: consistent_exec)

lemma consistent_reachable: "consistent (run U init_db cs)"
  by (rule consistent_run [OF consistent_init])

subsection \<open>An update by a unique key changes one row\<close>

lemma map_upd_key:
  "distinct (map f xs) \<Longrightarrow> x \<in> set xs \<Longrightarrow>
   map (\<lambda>y. if f y = f x then g y else y) xs = map (\<lambda>y. if y = x then g x else y) xs"
  by (rule map_cong) (auto dest: key_distinct_eq)

lemma add_points_by_id_one:
  "distinct (map u_id us) \<Longrightarrow> u \<in> set us \<Longrightarrow>
   add_points_by_id n (u_id u) us =
     map (\<lambda>v. if v = u then u\<lparr>u_points := u_points u + n\<rparr> else v) us"
  unfolding add_points_by_id_def by (rule map_upd_key)

lemma add_points_by_telegram_id_one:
  "distinct (map u_telegram_id us) \<Longrightarrow> u \<in> set us \<Longrightarrow>
   add_points_by_telegram_id n (u_telegram_id u) us =
     map (\<lambda>v. if v = u then u\<lparr>u_points := u_points u + n\<rparr> else v) us"
  unfolding add_points_by_telegram_id_def by (rule map_upd_key)

lemma set_claimed_one:
  "distinct (map r_id rs) \<Longrightarrow> r \<in> set rs \<Longrightarrow>
   set_claimed c (r_id r) rs =
     map (\<lambda>q. if q = r then r\<lparr>r_status := ''claimed'', r_claimed_by := Some c\<rparr> else q) rs"
  unfolding set_claimed_def by (rule map_upd_key)

lemma set_completed_one:
  "distinct (map r_id rs) \<Longrightarrow> r \<in> set rs \<Longrightarrow>
   set_completed url now (r_id r) rs =
     map (\<lambda>q. if q = r
               then r\<lparr>r_status := ''completed'', r_claim_proof_url := Some url,
                       r_completed_at := Some now\<rparr> else q) rs"
  unfolding set_completed_def by (rule map_upd_key)

lemma select_requests_map_one:
  assumes "consistent s" and "r \<in> set (requests s)" and "r_id r' = r_id r"
    and "requests s' = map (\<lambda>q. if q = r then r' else q) (requests s)"
  shows "select_requests s' (r_id r) = [r']"
proof -
  have d: "distinct (map r_id (requests s))" using assms(1) by (simp add: consistent_def)
  have m: "map r_id (requests s') = map r_id (requests s)"
    using assms(3,4) by (simp add: comp_def if_distrib cong: if_cong)
  have "r' \<in> set (requests s')" using assms(2,4) by force
  with filter_key_distinct [of r_id "requests s'" r'] d m assms(3) show ?thesis
    by (simp add: select_requests_def)
qed

lemma filter_tid_add_by_id:
  "filter (\<lambda>v. u_telegram_id v = t) (add_points_by_id n i us) =
   add_points_by_id n i (filter (\<lambda>v. u_telegram_id v = t) us)"
  by (induction us) (auto simp: add_points_by_id_def)

lemma get_points_add_by_id:
  assumes "consistent s" and "u \<in> set (users s)"
    and "users s' = add_points_by_id n (u_id u) (users s)"
  shows "get_points s' t =
    (if t = u_telegram_id u then Inr (u_points u + n) else get_points s t)"
proof (cases "t = u_telegram_id u")
  case True
  have "select_users s' t = add_points_by_id n (u_id u) [u]"
    using select_users_mem [OF assms(1,2)] assms(3) True
    by (simp add: select_users_def filter_tid_add_by_id)
  with True show ?thesis by (simp add: get_points_def add_points_by_id_def)
next
  case False
  have d: "distinct (map u_id (users s))" using assms(1) by (simp add: consistent_def)
  have "add_points_by_id n (u_id u) (filter (\<lambda>v. u_telegram_id v = t) (users s)) =
      filter (\<lambda>v. u_telegram_id v = t) (users s)"
    unfolding add_points_by_id_def
    using False key_distinct_eq [OF d _ assms(2)] by (intro map_idI) auto
  with False assms(3) show ?thesis
    by (simp add: get_points_def select_users_def filter_tid_add_by_id)
qed

subsection \<open>Upper case on ASCII\<close>

lemma upper_ascii:
  "\<forall>c \<in> set region. c < 128 \<Longrightarrow>
   upper U region = map (\<lambda>c. if 97 \<le> c \<and> c \<le> 122 then c - 32 else c) region"
  by (induction region) (simp_all add: upper_def ascii_upper_def)

lemma upper_ascii_no_lower:
  assumes "\<forall>c \<in> set region. c < 128"
  shows "\<forall>c \<in> set (upper U region). \<not> (97 \<le> c \<and> c \<le> 122)"
  unfolding upper_ascii [OF assms] by auto

lemma upper_ascii_idem:
  assumes "\<forall>c \<in> set region. c < 128"
  shows "upper U (upper U region) = upper U region"
proof -
  have a: "\<forall>c \<in> set (upper U region). c < 128"
    unfolding upper_ascii [OF assms] using assms by auto
  show ?thesis
    unfolding upper_ascii [OF a] unfolding upper_ascii [OF assms]
    by (auto simp: comp_def)
qed

subsection \<open>Sums of points\<close>

lemma sum_list_replace:
  "distinct xs \<Longrightarrow> x \<in> set xs \<Longrightarrow>
   sum_list (map g (map (\<lambda>y. if y = x then x' else y) xs)) = sum_list (map g xs) - g x + (g x' :: int)"
proof (induction xs)
  case Nil then show ?case by simp
next
  case (Cons a xs)
  show ?case
  proof (cases "a = x")
    case True
    with Cons.prems have "x \<notin> set xs" by simp
    then have "map (\<lambda>y. if y = x then x' else y) xs = xs" by (intro map_idI) auto
    with True show ?thesis by simp
  next
    case False
    with Cons show ?thesis by simp
  qed
qed

lemma total_add_by_id:
  assumes "consistent s" and "u \<in> set (users s)"
  shows "sum_list (map u_points (add_points_by_id n (u_id u) (users s))) = total_points s + n"
proof -
  have d: "distinct (map u_id (users s))" using assms(1) by (simp add: consistent_def)
  show ?thesis
    using sum_list_replace [OF distinct_rows [OF d] assms(2), of u_points]
    by (simp add: add_points_by_id_one [OF d assms(2)] total_points_def)
qed

lemma total_add_by_telegram_id:
  assumes "consistent s" and "u \<in> set (users s)"
  shows "sum_list (map u_points (add_points_by_telegram_id n (u_telegram_id u) (users s))) =
    total_points s + n"
proof -
  have d: "distinct (map u_telegram_id (users s))" using assms(1) by (simp add: consistent_def)
  show ?thesis
    using sum_list_replace [OF distinct_rows [OF d] assms(2), of u_points]
    by (simp add: add_points_by_telegram_id_one [OF d assms(2)] total_points_def)
qed

lemma escrow_stake: "escrow s = sum_list (map stake (requests s))"
  unfolding escrow_def stake_def by (rule sum_list_map_filter')

lemma escrow_set_claimed:
  assumes "consistent s" and "r \<in> set (requests s)" and "r_status r = ''open''"
  shows "sum_list (map stake (set_claimed c (r_id r) (requests s))) = escrow s"
proof -
  have d: "distinct (map r_id (requests s))" using assms(1) by (simp add: consistent_def)
  show ?thesis
    using sum_list_replace [OF distinct_rows [OF d] assms(2), of stake] assms(3)
    by (simp add: set_claimed_one [OF d assms(2)] escrow_stake stake_def)
qed

lemma escrow_set_completed:
  assumes "consistent s" and "r \<in> set (requests s)" and "r_status r = ''claimed''"
  shows "sum_list (map stake (set_completed url now (r_id r) (requests s))) =
    escrow s - r_points_requested r"
proof -
  have d: "distinct (map r_id (requests s))" using assms(1) by (simp add: consistent_def)
  show ?thesis
    using sum_list_replace [OF distinct_rows [OF d] assms(2), of stake] assms(3)
    by (simp add: set_completed_one [OF d assms(2)] escrow_stake stake_def)
qed

lemma supply_register: "all_points (snd (register s now t n)) = all_points s"
  by (simp add: register_def all_points_def total_points_def escrow_def)

lemma supply_create:
  assumes "consistent s"
  shows "all_points (snd (post_request_create U s now t uid region url p)) = all_points s"
proof (cases "select_users s t")
  case Nil
  then show ?thesis by (simp add: post_request_create_def create_request_def)
next
  case (Cons u us)
  from select_users_hd [OF Cons] have m: "u \<in> set (users s)" by simp
  from Cons total_add_by_id [OF assms m, of "- p"] show ?thesis
    by (simp add: post_request_create_def create_request_def all_points_def escrow_stake stake_def
          total_points_def)
qed

lemma supply_claim:
  assumes "consistent s"
  shows "all_points (snd (claim s t rid)) = all_points s"
proof (cases "select_requests s rid")
  case Nil
  then show ?thesis by (simp add: claim_def)
next
  case (Cons r rs)
  from select_requests_hd [OF Cons] have m: "r \<in> set (requests s)" by simp
  show ?thesis
  proof (cases "r_status r = ''open''")
    case True
    from Cons True escrow_set_claimed [OF assms m True] show ?thesis
      by (simp add: claim_def all_points_def escrow_stake total_points_def split: list.splits)
  next
    case False
    with Cons show ?thesis by (simp add: claim_def)
  qed
qed

lemma supply_confirm:
  assumes "consistent s"
  shows "all_points (snd (confirm s now t rid url)) = all_points s"
proof (cases "select_requests s rid")
  case Nil
  then show ?thesis by (simp add: confirm_def)
next
  case (Cons r rs)
  note selr = this
  from select_requests_hd [OF selr] have m: "r \<in> set (requests s)" by simp
  show ?thesis
  proof (cases "r_status r = ''claimed''")
    case False
    with selr show ?thesis by (simp add: confirm_def)
  next
    case True
    note st = this
    show ?thesis
    proof (cases "select_users s t")
      case Nil
      with selr st show ?thesis by (simp add: confirm_def)
    next
      case (Cons c cs)
      note selu = this
      from select_users_hd [OF selu] have mc: "c \<in> set (users s)" by simp
      from selr selu st escrow_set_completed [OF assms m st, of url now]
        total_add_by_id [OF assms mc, of "r_points_requested r"]
      show ?thesis
        by (simp add: confirm_def all_points_def escrow_stake total_points_def)
    qed
  qed
qed

lemma supply_admin:
  assumes "consistent s"
  shows "all_points (snd (admin_add_points s t p secret)) =
    all_points s + (if fst (admin_add_points s t p secret) = Inr ''Points added successfully''
                then p else 0)"
proof (cases "select_users s t")
  case Nil
  then show ?thesis by (simp add: admin_add_points_def)
next
  case (Cons u us)
  from select_users_hd [OF Cons] have m: "u \<in> set (users s)" "u_telegram_id u = t" by simp_all
  from Cons total_add_by_telegram_id [OF assms m(1), of p] m(2) show ?thesis
    by (simp add: admin_add_points_def all_points_def escrow_def total_points_def)
qed

subsection \<open>The end-to-end run, evaluated\<close>

lemmas endpoint_defs =
  register_def admin_add_points_def post_request_create_def create_request_def claim_def
  confirm_def get_points_def select_users_def select_requests_def next_rowid_def
  add_points_by_id_def add_points_by_telegram_id_def set_claimed_def set_completed_def

lemma upper_ind: "upper U [105, 110, 100] = [73, 78, 68]"
  by (simp add: upper_def ascii_upper_def)

lemma run_append: "run U s (cs @ ds) = run U (run U s cs) ds"
  by (induction cs arbitrary: s) simp_all

lemma run_funded: "run U init_db calls_funded = \<lparr>users = [user_a 50, user_b 0], requests = []\<rparr>"
  by (simp add: calls_funded_def init_db_def endpoint_defs user_a_def user_b_def)

lemma run_open:
  "run U init_db calls_open = \<lparr>users = [user_a 20, user_b 0], requests = [request_1 ''open'' None]\<rparr>"
  by (simp add: calls_open_def run_append run_funded endpoint_defs user_a_def user_b_def
        request_1_def upper_ind)

lemma run_claimed:
  "run U init_db calls_claimed =
     \<lparr>users = [user_a 20, user_b 0], requests = [request_1 ''claimed'' (Some 2)]\<rparr>"
  by (simp add: calls_claimed_def run_append run_open endpoint_defs user_a_def user_b_def
        request_1_def)

subsection \<open>Balances under calls that do not subtract\<close>

lemma nonnegative_add_by_id:
  "(\<forall>u \<in> set us. 0 \<le> u_points u) \<Longrightarrow> 0 \<le> n \<Longrightarrow>
   (\<forall>u \<in> set (add_points_by_id n i us). 0 \<le> u_points u)"
  by (auto simp: add_points_by_id_def)

lemma nonnegative_add_by_telegram_id:
  "(\<forall>u \<in> set us. 0 \<le> u_points u) \<Longrightarrow> 0 \<le> n \<Longrightarrow>
   (\<forall>u \<in> set (add_points_by_telegram_id n i us). 0 \<le> u_points u)"
  by (auto simp: add_points_by_telegram_id_def)

lemma nonnegative_register: "nonnegative s \<Longrightarrow> nonnegative (snd (register s now t n))"
  by (simp add: register_def nonnegative_def)

lemma nonnegative_create:
  assumes "consistent s" and "nonnegative s"
  shows "nonnegative (snd (post_request_create U s now t uid region url p))"
proof (cases "select_users s t")
  case Nil
  with assms(2) show ?thesis by (simp add: post_request_create_def create_request_def)
next
  case (Cons u us)
  from select_users_hd [OF Cons] have m: "u \<in> set (users s)" by simp
  have d: "distinct (map u_id (users s))" using assms(1) by (simp add: consistent_def)
  show ?thesis
  proof (cases "1 \<le> p \<and> p \<le> 100 \<and> \<not> u_points u < p")
    case False
    with Cons assms(2) show ?thesis
      by (auto simp: post_request_create_def create_request_def)
  next
    case True
    with Cons assms(2) show ?thesis
      by (auto simp: post_request_create_def create_request_def nonnegative_def
            add_points_by_id_one [OF d m])
  qed
qed

lemma nonnegative_claim: "nonnegative s \<Longrightarrow> nonnegative (snd (claim s t rid))"
  by (simp add: claim_def nonnegative_def split: list.splits)

lemma nonnegative_confirm:
  assumes "consistent s" and "nonnegative s"
  shows "nonnegative (snd (confirm s now t rid url))"
proof (cases "select_requests s rid")
  case Nil
  with assms(2) show ?thesis by (simp add: confirm_def)
next
  case (Cons r rs)
  from select_requests_hd [OF Cons] have "r \<in> set (requests s)" by simp
  with assms(1) have "0 \<le> r_points_requested r" by (auto simp: consistent_def request_ok_def)
  with Cons assms(2) nonnegative_add_by_id [of "users s" "r_points_requested r"]
  show ?thesis by (simp add: confirm_def nonnegative_def split: list.splits)
qed

lemma nonnegative_admin:
  "nonnegative s \<Longrightarrow> 0 \<le> p \<Longrightarrow> nonnegative (snd (admin_add_points s t p secret))"
  using nonnegative_add_by_telegram_id [of "users s" p t]
  by (simp add: admin_add_points_def nonnegative_def)

lemma nonnegative_exec:
  "consistent s \<Longrightarrow> nonnegative s \<Longrightarrow> adds_only c \<Longrightarrow> nonnegative (exec U s c)"
  by (cases c)
     (simp_all add: nonnegative_register nonnegative_create nonnegative_claim
        nonnegative_confirm nonnegative_admin)

lemma nonnegative_run:
  "consistent s \<Longrightarrow> nonnegative s \<Longrightarrow> \<forall>c \<in> set cs. adds_only c \<Longrightarrow> nonnegative (run U s cs)"
  by (induction cs arbitrary: s) (simp_all add: nonnegative_exec consistent_exec)

subsection \<open>What a call leaves of a request\<close>

lemma keeps_refl: "keeps r r"
  by (simp add: keeps_def)

lemma keeps_trans: "keeps r r' \<Longrightarrow> keeps r' r'' \<Longrightarrow> keeps r r''"
  by (auto simp: keeps_def)

lemma forward_refl: "forward a a"
  by (simp add: forward_def)

lemma forward_rank: "forward a b \<Longrightarrow> status_rank a \<le> status_rank b"
  by (auto simp: forward_def status_rank_def)

lemma select_requests_same:
  assumes "consistent s" and "r \<in> set (requests s)" and "requests s' = requests s"
  shows "select_requests s' (r_id r) = [r]"
  using select_requests_mem [OF assms(1,2)] assms(3) by (simp add: select_requests_def)

lemma select_requests_appended:
  assumes "consistent s" and "r \<in> set (requests s)" and "requests s' = requests s @ [n]"
    and "r_id n \<notin> set (map r_id (requests s))"
  shows "select_requests s' (r_id r) = [r]"
proof -
  from assms(2,4) have "r_id n \<noteq> r_id r" by force
  with select_requests_mem [OF assms(1,2)] assms(3) show ?thesis
    by (simp add: select_requests_def)
qed

lemma select_requests_replaced:
  assumes "consistent s" and "r \<in> set (requests s)" and "r_id q' = r_id q"
    and "requests s' = map (\<lambda>x. if x = q then q' else x) (requests s)"
  shows "select_requests s' (r_id r) = [if r = q then q' else r]"
proof -
  have d: "distinct (map r_id (requests s))" using assms(1) by (simp add: consistent_def)
  have m: "map r_id (requests s') = map r_id (requests s)"
    using assms(3,4) by (simp add: comp_def if_distrib cong: if_cong)
  have mem: "(if r = q then q' else r) \<in> set (requests s')" using assms(2,4) by force
  have i: "r_id (if r = q then q' else r) = r_id r" using assms(3) by simp
  from filter_key_distinct [of r_id "requests s'" "if r = q then q' else r"] d m mem
  have "filter (\<lambda>y. r_id y = r_id (if r = q then q' else r)) (requests s') =
      [if r = q then q' else r]" by simp
  then show ?thesis unfolding i by (simp add: select_requests_def)
qed

lemma step_register:
  assumes "consistent s" and "r \<in> set (requests s)"
  shows "select_requests (snd (register s now t n)) (r_id r) = [r]"
  by (rule select_requests_same [OF assms]) (simp add: register_def)

lemma step_admin:
  assumes "consistent s" and "r \<in> set (requests s)"
  shows "select_requests (snd (admin_add_points s t p secret)) (r_id r) = [r]"
  by (rule select_requests_same [OF assms]) (simp add: admin_add_points_def)

lemma step_create:
  assumes "consistent s" and "r \<in> set (requests s)"
  shows "select_requests (snd (post_request_create U s now t uid region url p)) (r_id r) = [r]"
proof (cases "fst (post_request_create U s now t uid region url p)")
  case (Inl e)
  then have "snd (post_request_create U s now t uid region url p) = s"
    by (auto simp: post_request_create_def create_request_def split: list.splits if_splits)
  with select_requests_mem [OF assms] show ?thesis by simp
next
  case (Inr m)
  then obtain n where app: "requests (snd (post_request_create U s now t uid region url p)) =
      requests s @ [n]" and "r_id n = next_rowid (map r_id (requests s))"
    by (auto simp: post_request_create_def create_request_def split: list.splits if_splits)
  with next_rowid_fresh [of "map r_id (requests s)"]
  have "r_id n \<notin> set (map r_id (requests s))" by simp
  from select_requests_appended [OF assms app this] show ?thesis .
qed

lemma step_claim:
  assumes "consistent s" and "r \<in> set (requests s)"
  shows "\<exists>r'. select_requests (snd (claim s t rid)) (r_id r) = [r'] \<and> keeps r r' \<and>
    forward (r_status r) (r_status r')"
proof (cases "fst (claim s t rid)")
  case (Inl e)
  then have "snd (claim s t rid) = s"
    by (auto simp: claim_def split: list.splits if_splits)
  with select_requests_mem [OF assms] show ?thesis by (simp add: keeps_refl forward_refl)
next
  case (Inr m)
  then obtain q qs c where q: "select_requests s rid = q # qs" "r_status q = ''open''"
    and s': "requests (snd (claim s t rid)) = set_claimed c (r_id q) (requests s)"
    by (auto simp: claim_def split: list.splits if_splits)
  from select_requests_hd [OF q(1)] have mq: "q \<in> set (requests s)" by simp
  have d: "distinct (map r_id (requests s))" using assms(1) by (simp add: consistent_def)
  define q' where "q' = q\<lparr>r_status := ''claimed'', r_claimed_by := Some c\<rparr>"
  have none: "r_claimed_by q = None"
    using assms(1) mq q(2) by (auto simp: consistent_def request_ok_def)
  have "requests (snd (claim s t rid)) = map (\<lambda>x. if x = q then q' else x) (requests s)"
    using s' set_claimed_one [OF d mq, of c] by (simp add: q'_def)
  from select_requests_replaced [OF assms _ this]
  have "select_requests (snd (claim s t rid)) (r_id r) = [if r = q then q' else r]"
    by (simp add: q'_def)
  moreover have "keeps r (if r = q then q' else r)"
    using none by (simp add: keeps_def q'_def)
  moreover have "forward (r_status r) (r_status (if r = q then q' else r))"
    using q(2) by (simp add: forward_def q'_def)
  ultimately show ?thesis by blast
qed

lemma step_confirm:
  assumes "consistent s" and "r \<in> set (requests s)"
  shows "\<exists>r'. select_requests (snd (confirm s now t rid url)) (r_id r) = [r'] \<and> keeps r r' \<and>
    forward (r_status r) (r_status r')"
proof (cases "fst (confirm s now t rid url)")
  case (Inl e)
  then have "snd (confirm s now t rid url) = s"
    by (auto simp: confirm_def split: list.splits if_splits)
  with select_requests_mem [OF assms] show ?thesis by (simp add: keeps_refl forward_refl)
next
  case (Inr m)
  then obtain q qs where q: "select_requests s rid = q # qs" "r_status q = ''claimed''"
    and s': "requests (snd (confirm s now t rid url)) = set_completed url now (r_id q) (requests s)"
    by (auto simp: confirm_def split: list.splits if_splits)
  from select_requests_hd [OF q(1)] have mq: "q \<in> set (requests s)" by simp
  have d: "distinct (map r_id (requests s))" using assms(1) by (simp add: consistent_def)
  define q' where "q' = q\<lparr>r_status := ''completed'', r_claim_proof_url := Some url,
      r_completed_at := Some now\<rparr>"
  have "requests (snd (confirm s now t rid url)) =
      map (\<lambda>x. if x = q then q' else x) (requests s)"
    using s' set_completed_one [OF d mq, of url now] by (simp add: q'_def)
  from select_requests_replaced [OF assms _ this]
  have "select_requests (snd (confirm s now t rid url)) (r_id r) = [if r = q then q' else r]"
    by (simp add: q'_def)
  moreover have "keeps r (if r = q then q' else r)"
    by (simp add: keeps_def q'_def)
  moreover have "forward (r_status r) (r_status (if r = q then q' else r))"
    using q(2) by (simp add: forward_def q'_def)
  ultimately show ?thesis by blast
qed

lemma step_exec:
  assumes "consistent s" and "r \<in> set (requests s)"
  shows "\<exists>r'. select_requests (exec U s c) (r_id r) = [r'] \<and> keeps r r' \<and>
    forward (r_status r) (r_status r')"
proof (cases c)
  case (Register now t n)
  with step_register [OF assms] show ?thesis by (simp add: keeps_refl forward_refl)
next
  case (RequestCreate now t uid region url p)
  with step_create [OF assms] show ?thesis by (simp add: keeps_refl forward_refl)
next
  case (RequestClaim t rid)
  with step_claim [OF assms] show ?thesis by simp
next
  case (RequestConfirm now t rid url)
  with step_confirm [OF assms] show ?thesis by simp
next
  case (AdminAddPoints t p secret)
  with step_admin [OF assms] show ?thesis by (simp add: keeps_refl forward_refl)
qed

lemma steps_run:
  "consistent s \<Longrightarrow> r \<in> set (requests s) \<Longrightarrow>
   \<exists>r'. select_requests (run U s cs) (r_id r) = [r'] \<and> keeps r r' \<and>
     status_rank (r_status r) \<le> status_rank (r_status r')"
proof (induction cs arbitrary: s r)
  case Nil
  with select_requests_mem [of s r] show ?case by (simp add: keeps_refl)
next
  case (Cons c cs)
  from step_exec [OF Cons.prems, of U c] obtain r1 where
    r1: "select_requests (exec U s c) (r_id r) = [r1]" "keeps r r1"
      "forward (r_status r) (r_status r1)" by blast
  from select_requests_hd [OF r1(1)] have m1: "r1 \<in> set (requests (exec U s c))" by simp
  from Cons.IH [OF consistent_exec [OF Cons.prems(1)] m1] obtain r2 where
    r2: "select_requests (run U (exec U s c) cs) (r_id r1) = [r2]" "keeps r1 r2"
      "status_rank (r_status r1) \<le> status_rank (r_status r2)" by blast
  have "r_id r1 = r_id r" using r1(2) by (simp add: keeps_def)
  with r2(1) have "select_requests (run U s (c # cs)) (r_id r) = [r2]" by simp
  moreover have "keeps r r2" by (rule keeps_trans [OF r1(2) r2(2)])
  moreover have "status_rank (r_status r) \<le> status_rank (r_status r2)"
    using forward_rank [OF r1(3)] r2(3) by simp
  ultimately show ?case by blast
qed

subsection \<open>The listing\<close>




















section \<open>The claims\<close>

text \<open>
  The specification's error names are the program's responses: \<open>NotRegistered\<close> and
  \<open>NotFound\<close> are status 404, \<open>InvalidAmount\<close> is the rejected body (422),
  \<open>InsufficientFunds\<close>, \<open>InvalidState\<close> and \<open>SelfClaim\<close> are status 400 with the
  details \<open>Not enough points to post request\<close>, \<open>Request not open\<close> or
  \<open>Request not in claimed state\<close>, and \<open>Owner cannot claim own request\<close>, and
  \<open>Forbidden\<close> is status 403. A reachable database is \<open>run U init_db cs\<close> for a list
  \<open>cs\<close> of calls and any upper-case table \<open>U\<close>.
\<close>

text \<open>
  C2. In a reachable database, a create call by a registered owner \<open>u\<close> with
  \<open>1 \<le> p \<le> 100\<close> and \<open>p \<le> u_points u\<close> succeeds; it lowers the owner's balance by exactly
  \<open>p\<close> and changes no other user row (so no other balance, as \<open>get_points\<close> reads it), and
  it appends one request with a fresh id, status \<open>open\<close>, no claimant, no claim proof and no
  completion time, the time of the call, the owner's id, the stake \<open>p\<close>, the given target
  and proof, and the region in upper case. The stored region is the input with every code
  point replaced by its upper-case mapping: below 128 the letters 97..122 are lowered by 32 and
  the rest stay, from 128 on the mapping is the one of the table \<open>U\<close>. For a region of ASCII
  code points that is the input with its letters capitalised and nothing else changed; it
  holds no lower-case letter, and upper-casing it again changes nothing.
\<close>

theorem create_request_effect:
  assumes "s = run U init_db cs" and "u \<in> set (users s)"
    and "1 \<le> p" and "p \<le> 100" and "p \<le> u_points u"
    and "res = post_request_create U s now (u_telegram_id u) uid region url p"
  shows "fst res = Inr ''Request created and points staked'' \<and>
    users (snd res) = map (\<lambda>v. if v = u then u\<lparr>u_points := u_points u - p\<rparr> else v) (users s) \<and>
    get_points (snd res) (u_telegram_id u) = Inr (u_points u - p) \<and>
    (\<forall>t. t \<noteq> u_telegram_id u \<longrightarrow> get_points (snd res) t = get_points s t) \<and>
    (\<exists>r. requests (snd res) = requests s @ [r] \<and> r_id r \<notin> set (map r_id (requests s)) \<and>
         r_status r = ''open'' \<and> r_claimed_by r = None \<and> r_claim_proof_url r = None \<and>
         r_completed_at r = None \<and> r_created_at r = now \<and>
         r_owner_id r = u_id u \<and> r_uid r = uid \<and> r_proof_url r = url \<and>
         r_points_requested r = p \<and>
         r_region r =
           concat (map (\<lambda>c. if c < 128 then [if 97 \<le> c \<and> c \<le> 122 then c - 32 else c]
                             else U c) region) \<and>
         ((\<forall>c \<in> set region. c < 128) \<longrightarrow>
            r_region r = map (\<lambda>c. if 97 \<le> c \<and> c \<le> 122 then c - 32 else c) region \<and>
            (\<forall>c \<in> set (r_region r). \<not> (97 \<le> c \<and> c \<le> 122)) \<and>
            upper U (r_region r) = r_region r))"
proof -
  have c: "consistent s" using assms(1) consistent_reachable by simp
  have sel: "select_users s (u_telegram_id u) = [u]" by (rule select_users_mem [OF c assms(2)])
  have d: "distinct (map u_id (users s))" using c by (simp add: consistent_def)
  have res: "res = (Inr ''Request created and points staked'',
      s\<lparr>requests := requests s @
           [\<lparr>r_id = next_rowid (map r_id (requests s)),
             r_owner_id = u_id u, r_uid = uid, r_region = upper U region,
             r_proof_url = url, r_points_requested = p,
             r_status = ''open'', r_created_at = now, r_claimed_by = None,
             r_claim_proof_url = None, r_completed_at = None\<rparr>],
         users := add_points_by_id (- p) (u_id u) (users s)\<rparr>)"
    using assms(3-6) sel by (simp add: post_request_create_def create_request_def)
  have us: "users (snd res) = add_points_by_id (- p) (u_id u) (users s)"
    by (simp add: res)
  have g: "get_points (snd res) t =
      (if t = u_telegram_id u then Inr (u_points u + - p) else get_points s t)" for t
    by (rule get_points_add_by_id [OF c assms(2) us])
  have one: "users (snd res) =
      map (\<lambda>v. if v = u then u\<lparr>u_points := u_points u - p\<rparr> else v) (users s)"
    using add_points_by_id_one [OF d assms(2), of "- p"] us by simp
  have prim: "upper U region =
      concat (map (\<lambda>c. if c < 128 then [if 97 \<le> c \<and> c \<le> 122 then c - 32 else c]
                        else U c) region)"
    by (simp only: upper_def ascii_upper_def)
  have asc: "(\<forall>c \<in> set region. c < 128) \<longrightarrow>
      upper U region = map (\<lambda>c. if 97 \<le> c \<and> c \<le> 122 then c - 32 else c) region \<and>
      (\<forall>c \<in> set (upper U region). \<not> (97 \<le> c \<and> c \<le> 122)) \<and>
      upper U (upper U region) = upper U region"
    using upper_ascii [of region U] upper_ascii_no_lower [of region U]
      upper_ascii_idem [of region U] by blast
  define r where "r = \<lparr>r_id = next_rowid (map r_id (requests s)),
             r_owner_id = u_id u, r_uid = uid, r_region = upper U region,
             r_proof_url = url, r_points_requested = p,
             r_status = ''open'', r_created_at = now, r_claimed_by = None,
             r_claim_proof_url = None, r_completed_at = None\<rparr>"
  have rq: "requests (snd res) = requests s @ [r]" by (simp add: res r_def)
  have fresh: "r_id r \<notin> set (map r_id (requests s))"
    using next_rowid_fresh [of "map r_id (requests s)"] by (simp add: r_def)
  have fields: "r_status r = ''open''" "r_claimed_by r = None" "r_claim_proof_url r = None"
    "r_completed_at r = None" "r_created_at r = now" "r_owner_id r = u_id u" "r_uid r = uid"
    "r_proof_url r = url" "r_points_requested r = p" "r_region r = upper U region"
    by (simp_all add: r_def)
  have new: "\<exists>r. requests (snd res) = requests s @ [r] \<and> r_id r \<notin> set (map r_id (requests s)) \<and>
         r_status r = ''open'' \<and> r_claimed_by r = None \<and> r_claim_proof_url r = None \<and>
         r_completed_at r = None \<and> r_created_at r = now \<and>
         r_owner_id r = u_id u \<and> r_uid r = uid \<and> r_proof_url r = url \<and>
         r_points_requested r = p \<and>
         r_region r =
           concat (map (\<lambda>c. if c < 128 then [if 97 \<le> c \<and> c \<le> 122 then c - 32 else c]
                             else U c) region) \<and>
         ((\<forall>c \<in> set region. c < 128) \<longrightarrow>
            r_region r = map (\<lambda>c. if 97 \<le> c \<and> c \<le> 122 then c - 32 else c) region \<and>
            (\<forall>c \<in> set (r_region r). \<not> (97 \<le> c \<and> c \<le> 122)) \<and>
            upper U (r_region r) = r_region r)"
    apply (rule exI [of _ r])
    using rq fresh fields(1-9) prim asc unfolding fields(10) by blast
  have ok: "fst res = Inr ''Request created and points staked''" by (simp add: res)
  have g1: "get_points (snd res) (u_telegram_id u) = Inr (u_points u - p)" using g by simp
  have g2: "\<forall>t. t \<noteq> u_telegram_id u \<longrightarrow> get_points (snd res) t = get_points s t"
    using g by simp
  from ok one g1 g2 new show ?thesis by blast
qed

theorem create_request_effect_witness:
  "user_a 50 \<in> set (users (run plain_table init_db calls_funded)) \<and> (1::int) \<le> 30 \<and>
   (30::int) \<le> 100 \<and> 30 \<le> u_points (user_a 50) \<and>
   get_points (snd (post_request_create plain_table (run plain_table init_db calls_funded)
       ''2024-01-01T10:02:00'' (u_telegram_id (user_a 50)) ''2476897412'' [105, 110, 100]
       ''https://example.com/p'' 30))
     (u_telegram_id (user_a 50)) = Inr 20 \<and>
   map r_region (requests (snd (post_request_create plain_table
       (run plain_table init_db calls_funded) ''2024-01-01T10:02:00''
       (u_telegram_id (user_a 50)) ''2476897412'' [105, 110, 100] ''https://example.com/p'' 30))) =
     [[73, 78, 68]]"
proof -
  let ?s = "run plain_table init_db calls_funded"
  let ?res = "post_request_create plain_table ?s ''2024-01-01T10:02:00''
       (u_telegram_id (user_a 50)) ''2476897412'' [105, 110, 100] ''https://example.com/p'' 30"
  have m: "user_a 50 \<in> set (users ?s)" by (simp add: run_funded)
  have b: "30 \<le> u_points (user_a 50)" by (simp add: user_a_def)
  have e: "requests ?s = []" by (simp add: run_funded)
  from create_request_effect [where p = 30 and now = "''2024-01-01T10:02:00''"
      and uid = "''2476897412''" and region = "[105, 110, 100]"
      and url = "''https://example.com/p''", OF refl m _ _ b refl]
  obtain r where g: "get_points (snd ?res) (u_telegram_id (user_a 50)) =
        Inr (u_points (user_a 50) - 30)"
    and rq: "requests (snd ?res) = requests ?s @ [r]"
    and rg: "r_region r =
        concat (map (\<lambda>c. if c < 128 then [if 97 \<le> c \<and> c \<le> 122 then c - 32 else c]
                          else plain_table c) [105, 110, 100])"
    by auto
  from g have g': "get_points (snd ?res) (u_telegram_id (user_a 50)) = Inr 20"
    by (simp add: user_a_def)
  from rq rg e have "map r_region (requests (snd ?res)) = [[73, 78, 68]]" by simp
  with m b g' show ?thesis by simp
qed

text \<open>
  C3. In a reachable database, a confirm call on a request \<open>r\<close> with status \<open>claimed\<close> by
  the user \<open>c\<close> recorded in \<open>claimed_by\<close> succeeds; \<open>r\<close> becomes \<open>completed\<close> with the
  supplied claim proof and the time of the call, no other request changes, the claimant's
  balance rises by exactly \<open>r_points_requested r\<close> and no other balance changes. Every later
  confirm on the same request, by anyone, fails with status 400
  \<open>Request not in claimed state\<close> and leaves the database as it is.
\<close>

theorem confirm_effect:
  assumes "s = run U init_db cs" and "r \<in> set (requests s)" and "r_status r = ''claimed''"
    and "c \<in> set (users s)" and "r_claimed_by r = Some (u_id c)"
    and "res = confirm s now (u_telegram_id c) (r_id r) url"
  shows "fst res = Inr ''Confirmed. Points awarded to claimer'' \<and>
    requests (snd res) =
      map (\<lambda>q. if q = r
                then r\<lparr>r_status := ''completed'', r_claim_proof_url := Some url,
                        r_completed_at := Some now\<rparr> else q) (requests s) \<and>
    users (snd res) =
      map (\<lambda>v. if v = c then c\<lparr>u_points := u_points c + r_points_requested r\<rparr> else v)
        (users s) \<and>
    (\<forall>t. get_points (snd res) t =
       (if t = u_telegram_id c then Inr (u_points c + r_points_requested r)
        else get_points s t)) \<and>
    (\<forall>now' t url'. confirm (snd res) now' t (r_id r) url' =
       (Inl (HTTPException 400 ''Request not in claimed state''), snd res))"
proof -
  have cs: "consistent s" using assms(1) consistent_reachable by simp
  have d: "distinct (map r_id (requests s))" "distinct (map u_id (users s))"
    using cs by (simp_all add: consistent_def)
  have selr: "select_requests s (r_id r) = [r]" by (rule select_requests_mem [OF cs assms(2)])
  have selu: "select_users s (u_telegram_id c) = [c]" by (rule select_users_mem [OF cs assms(4)])
  define r' where "r' = r\<lparr>r_status := ''completed'', r_claim_proof_url := Some url,
      r_completed_at := Some now\<rparr>"
  have res: "res = (Inr ''Confirmed. Points awarded to claimer'',
      s\<lparr>requests := map (\<lambda>q. if q = r then r' else q) (requests s),
        users := add_points_by_id (r_points_requested r) (u_id c) (users s)\<rparr>)"
    using assms(3,5,6) selr selu set_completed_one [OF d(1) assms(2), of url now]
    by (simp add: confirm_def r'_def)
  have rq: "requests (snd res) = map (\<lambda>q. if q = r then r' else q) (requests s)"
    by (simp add: res)
  have us: "users (snd res) = add_points_by_id (r_points_requested r) (u_id c) (users s)"
    by (simp add: res)
  have "r_id r' = r_id r" by (simp add: r'_def)
  from select_requests_map_one [OF cs assms(2) this rq]
  have sel': "select_requests (snd res) (r_id r) = [r']" .
  have again: "confirm (snd res) now' t (r_id r) url' =
      (Inl (HTTPException 400 ''Request not in claimed state''), snd res)" for now' t url'
    using sel' by (simp add: confirm_def r'_def)
  have gp: "get_points (snd res) t =
      (if t = u_telegram_id c then Inr (u_points c + r_points_requested r)
       else get_points s t)" for t
    by (rule get_points_add_by_id [OF cs assms(4) us])
  have one: "users (snd res) =
      map (\<lambda>v. if v = c then c\<lparr>u_points := u_points c + r_points_requested r\<rparr> else v)
        (users s)"
    using add_points_by_id_one [OF d(2) assms(4)] us by simp
  have ok: "fst res = Inr ''Confirmed. Points awarded to claimer''" by (simp add: res)
  from ok rq one gp again show ?thesis by (simp add: r'_def)
qed

theorem confirm_effect_witness:
  "request_1 ''claimed'' (Some 2) \<in> set (requests (run plain_table init_db calls_claimed)) \<and>
   r_status (request_1 ''claimed'' (Some 2)) = ''claimed'' \<and>
   user_b 0 \<in> set (users (run plain_table init_db calls_claimed)) \<and>
   r_claimed_by (request_1 ''claimed'' (Some 2)) = Some (u_id (user_b 0)) \<and>
   users (snd (confirm (run plain_table init_db calls_claimed) ''2024-01-01T10:05:00''
       (u_telegram_id (user_b 0)) (r_id (request_1 ''claimed'' (Some 2)))
       ''https://example.com/done'')) = [user_a 20, user_b 30]"
proof -
  have m: "request_1 ''claimed'' (Some 2) \<in> set (requests (run plain_table init_db calls_claimed))"
    by (simp add: run_claimed)
  have st: "r_status (request_1 ''claimed'' (Some 2)) = ''claimed''" by (simp add: request_1_def)
  have mu: "user_b 0 \<in> set (users (run plain_table init_db calls_claimed))" by (simp add: run_claimed)
  have cl: "r_claimed_by (request_1 ''claimed'' (Some 2)) = Some (u_id (user_b 0))"
    by (simp add: user_b_def request_1_def)
  from confirm_effect [OF refl m st mu cl refl]
  have "users (snd (confirm (run plain_table init_db calls_claimed) ''2024-01-01T10:05:00''
       (u_telegram_id (user_b 0)) (r_id (request_1 ''claimed'' (Some 2)))
       ''https://example.com/done'')) =
      map (\<lambda>v. if v = user_b 0
                then (user_b 0)\<lparr>u_points := u_points (user_b 0) +
                       r_points_requested (request_1 ''claimed'' (Some 2))\<rparr> else v)
        (users (run plain_table init_db calls_claimed))"
    by blast
  then have "users (snd (confirm (run plain_table init_db calls_claimed) ''2024-01-01T10:05:00''
       (u_telegram_id (user_b 0)) (r_id (request_1 ''claimed'' (Some 2)))
       ''https://example.com/done'')) = [user_a 20, user_b 30]"
    by (simp add: run_claimed request_1_def user_b_def user_a_def)
  with m st mu cl show ?thesis by blast
qed

text \<open>
  C4. In a reachable database, a claim call on a request \<open>r\<close> with status \<open>open\<close> by a
  registered user \<open>c\<close> who is not its owner succeeds; \<open>r\<close> becomes \<open>claimed\<close> with
  \<open>claimed_by\<close> the claimant's id, no other request changes and the user table, hence every
  balance, is untouched. Every later claim on the same request, by anyone, fails with status
  400 \<open>Request not open\<close> and leaves the database as it is.
\<close>

theorem claim_effect:
  assumes "s = run U init_db cs" and "r \<in> set (requests s)" and "r_status r = ''open''"
    and "c \<in> set (users s)" and "u_id c \<noteq> r_owner_id r"
    and "res = claim s (u_telegram_id c) (r_id r)"
  shows "fst res = Inr ''Request claimed. Confirm with /request/confirm after liking'' \<and>
    requests (snd res) =
      map (\<lambda>q. if q = r then r\<lparr>r_status := ''claimed'', r_claimed_by := Some (u_id c)\<rparr> else q)
        (requests s) \<and>
    users (snd res) = users s \<and>
    (\<forall>t. get_points (snd res) t = get_points s t) \<and>
    (\<forall>t. claim (snd res) t (r_id r) = (Inl (HTTPException 400 ''Request not open''), snd res))"
proof -
  have cs: "consistent s" using assms(1) consistent_reachable by simp
  have d: "distinct (map r_id (requests s))" using cs by (simp add: consistent_def)
  have selr: "select_requests s (r_id r) = [r]" by (rule select_requests_mem [OF cs assms(2)])
  have selu: "select_users s (u_telegram_id c) = [c]" by (rule select_users_mem [OF cs assms(4)])
  define r' where "r' = r\<lparr>r_status := ''claimed'', r_claimed_by := Some (u_id c)\<rparr>"
  have res: "res = (Inr ''Request claimed. Confirm with /request/confirm after liking'',
      s\<lparr>requests := map (\<lambda>q. if q = r then r' else q) (requests s)\<rparr>)"
    using assms(3,5,6) selr selu set_claimed_one [OF d assms(2), of "u_id c"]
    by (simp add: claim_def r'_def)
  have rq: "requests (snd res) = map (\<lambda>q. if q = r then r' else q) (requests s)"
    by (simp add: res)
  have "r_id r' = r_id r" by (simp add: r'_def)
  from select_requests_map_one [OF cs assms(2) this rq]
  have sel': "select_requests (snd res) (r_id r) = [r']" .
  have again: "claim (snd res) t (r_id r) = (Inl (HTTPException 400 ''Request not open''), snd res)"
    for t
    using sel' by (simp add: claim_def r'_def)
  have gp: "get_points (snd res) t = get_points s t" for t
    by (simp add: res get_points_def select_users_def)
  from again gp rq show ?thesis by (simp add: res r'_def)
qed

theorem claim_effect_witness:
  "request_1 ''open'' None \<in> set (requests (run plain_table init_db calls_open)) \<and>
   r_status (request_1 ''open'' None) = ''open'' \<and>
   user_b 0 \<in> set (users (run plain_table init_db calls_open)) \<and>
   u_id (user_b 0) \<noteq> r_owner_id (request_1 ''open'' None) \<and>
   requests (snd (claim (run plain_table init_db calls_open) (u_telegram_id (user_b 0))
       (r_id (request_1 ''open'' None)))) = [request_1 ''claimed'' (Some 2)]"
proof -
  have m: "request_1 ''open'' None \<in> set (requests (run plain_table init_db calls_open))"
    by (simp add: run_open)
  have st: "r_status (request_1 ''open'' None) = ''open''" by (simp add: request_1_def)
  have mu: "user_b 0 \<in> set (users (run plain_table init_db calls_open))" by (simp add: run_open)
  have ne: "u_id (user_b 0) \<noteq> r_owner_id (request_1 ''open'' None)"
    by (simp add: user_b_def request_1_def)
  from claim_effect [OF refl m st mu ne refl]
  have "requests (snd (claim (run plain_table init_db calls_open) (u_telegram_id (user_b 0))
       (r_id (request_1 ''open'' None)))) =
      map (\<lambda>q. if q = request_1 ''open'' None
                then (request_1 ''open'' None)\<lparr>r_status := ''claimed'',
                       r_claimed_by := Some (u_id (user_b 0))\<rparr> else q)
        (requests (run plain_table init_db calls_open))"
    by blast
  then have "requests (snd (claim (run plain_table init_db calls_open) (u_telegram_id (user_b 0))
       (r_id (request_1 ''open'' None)))) = [request_1 ''claimed'' (Some 2)]"
    by (simp add: run_open request_1_def user_b_def)
  with m st mu ne show ?thesis by blast
qed

text \<open>
  C6. In a reachable database, a claim on an open request by its owner fails with status 400
  \<open>Owner cannot claim own request\<close>, and a confirm on a claimed request by a registered
  user other than the recorded claimant fails with status 403 \<open>Only claimer can confirm\<close>;
  both leave the whole database, requests and balances, as it is.
\<close>

theorem claim_confirm_refusals:
  "(s = run U init_db cs \<and> r \<in> set (requests s) \<and> r_status r = ''open'' \<and>
    ow \<in> set (users s) \<and> u_id ow = r_owner_id r \<longrightarrow>
      claim s (u_telegram_id ow) (r_id r) =
        (Inl (HTTPException 400 ''Owner cannot claim own request''), s)) \<and>
   (s' = run U init_db cs' \<and> r' \<in> set (requests s') \<and> r_status r' = ''claimed'' \<and>
    v \<in> set (users s') \<and> r_claimed_by r' \<noteq> Some (u_id v) \<longrightarrow>
      confirm s' now (u_telegram_id v) (r_id r') url =
        (Inl (HTTPException 403 ''Only claimer can confirm''), s'))"
proof (intro conjI impI; elim conjE)
  assume a: "s = run U init_db cs" "r \<in> set (requests s)" "r_status r = ''open''"
    "ow \<in> set (users s)" "u_id ow = r_owner_id r"
  have cs: "consistent s" unfolding a(1) by (rule consistent_reachable)
  from a(3,5) select_requests_mem [OF cs a(2)] select_users_mem [OF cs a(4)]
  show "claim s (u_telegram_id ow) (r_id r) =
        (Inl (HTTPException 400 ''Owner cannot claim own request''), s)"
    by (simp add: claim_def)
next
  assume a: "s' = run U init_db cs'" "r' \<in> set (requests s')" "r_status r' = ''claimed''"
    "v \<in> set (users s')" "r_claimed_by r' \<noteq> Some (u_id v)"
  have cs: "consistent s'" unfolding a(1) by (rule consistent_reachable)
  from a(3,5) select_requests_mem [OF cs a(2)] select_users_mem [OF cs a(4)]
  show "confirm s' now (u_telegram_id v) (r_id r') url =
        (Inl (HTTPException 403 ''Only claimer can confirm''), s')"
    by (auto simp: confirm_def)
qed

theorem claim_confirm_refusals_witness:
  "claim (run plain_table init_db calls_open) (u_telegram_id (user_a 20)) (r_id (request_1 ''open'' None)) =
     (Inl (HTTPException 400 ''Owner cannot claim own request''), run plain_table init_db calls_open) \<and>
   confirm (run plain_table init_db calls_claimed) ''2024-01-01T10:05:00'' (u_telegram_id (user_a 20))
       (r_id (request_1 ''claimed'' (Some 2))) ''https://example.com/done'' =
     (Inl (HTTPException 403 ''Only claimer can confirm''), run plain_table init_db calls_claimed)"
proof -
  have h1: "run plain_table init_db calls_open = run plain_table init_db calls_open \<and>
      request_1 ''open'' None \<in> set (requests (run plain_table init_db calls_open)) \<and>
      r_status (request_1 ''open'' None) = ''open'' \<and>
      user_a 20 \<in> set (users (run plain_table init_db calls_open)) \<and>
      u_id (user_a 20) = r_owner_id (request_1 ''open'' None)"
    by (simp add: run_open request_1_def user_a_def)
  have h2: "run plain_table init_db calls_claimed = run plain_table init_db calls_claimed \<and>
      request_1 ''claimed'' (Some 2) \<in> set (requests (run plain_table init_db calls_claimed)) \<and>
      r_status (request_1 ''claimed'' (Some 2)) = ''claimed'' \<and>
      user_a 20 \<in> set (users (run plain_table init_db calls_claimed)) \<and>
      r_claimed_by (request_1 ''claimed'' (Some 2)) \<noteq> Some (u_id (user_a 20))"
    by (simp add: run_claimed request_1_def user_a_def)
  from claim_confirm_refusals [of "run plain_table init_db calls_open" plain_table calls_open "request_1 ''open'' None"
      "user_a 20" "run plain_table init_db calls_claimed" calls_claimed "request_1 ''claimed'' (Some 2)"
      "user_a 20" "''2024-01-01T10:05:00''" "''https://example.com/done''"] h1 h2
  show ?thesis by blast
qed

text \<open>
  C7. A create call with \<open>points\<close> outside 1..100 is rejected as an invalid body; with
  \<open>points\<close> in range and no user of that \<^verbatim>\<open>telegram_id\<close> it fails with status 404
  \<open>User not registered\<close>; with \<open>points\<close> in range and a balance below \<open>points\<close> it fails
  with status 400 \<open>Not enough points to post request\<close>. In each case the database is left
  as it is: no request is inserted and no balance changes. This holds in every database.
\<close>

theorem create_request_failures:
  "(\<not> (1 \<le> p \<and> p \<le> 100) \<longrightarrow>
      post_request_create U s now t uid region url p = (Inl RequestValidationError, s)) \<and>
   (1 \<le> p' \<and> p' \<le> 100 \<and> t' \<notin> set (map u_telegram_id (users s')) \<longrightarrow>
      post_request_create U s' now' t' uid' region' url' p' =
        (Inl (HTTPException 404 ''User not registered''), s')) \<and>
   (1 \<le> q \<and> q \<le> 100 \<and> get_points z tz = Inr b \<and> b < q \<longrightarrow>
      post_request_create U z nowz tz uidz regionz urlz q =
        (Inl (HTTPException 400 ''Not enough points to post request''), z))"
proof (intro conjI impI)
  assume "\<not> (1 \<le> p \<and> p \<le> 100)"
  then show "post_request_create U s now t uid region url p = (Inl RequestValidationError, s)"
    by (auto simp: post_request_create_def)
next
  assume a: "1 \<le> p' \<and> p' \<le> 100 \<and> t' \<notin> set (map u_telegram_id (users s'))"
  then have "select_users s' t' = []"
    by (auto simp: select_users_def filter_empty_conv)
  with a show "post_request_create U s' now' t' uid' region' url' p' =
        (Inl (HTTPException 404 ''User not registered''), s')"
    by (simp add: post_request_create_def create_request_def)
next
  assume a: "1 \<le> q \<and> q \<le> 100 \<and> get_points z tz = Inr b \<and> b < q"
  then obtain u us where "select_users z tz = u # us" "u_points u = b"
    by (auto simp: get_points_def split: list.splits)
  with a show "post_request_create U z nowz tz uidz regionz urlz q =
        (Inl (HTTPException 400 ''Not enough points to post request''), z)"
    by (simp add: post_request_create_def create_request_def)
qed

theorem create_request_failures_witness:
  "post_request_create plain_table (run plain_table init_db calls_funded) ''2024-01-01T10:02:00'' 1 ''2476897412''
      [105, 110, 100] ''https://example.com/p'' 101 =
     (Inl RequestValidationError, run plain_table init_db calls_funded) \<and>
   post_request_create plain_table (run plain_table init_db calls_funded) ''2024-01-01T10:02:00'' 9 ''2476897412''
      [105, 110, 100] ''https://example.com/p'' 30 =
     (Inl (HTTPException 404 ''User not registered''), run plain_table init_db calls_funded) \<and>
   post_request_create plain_table (run plain_table init_db calls_funded) ''2024-01-01T10:02:00'' 1 ''2476897412''
      [105, 110, 100] ''https://example.com/p'' 60 =
     (Inl (HTTPException 400 ''Not enough points to post request''), run plain_table init_db calls_funded)"
proof -
  have h1: "\<not> ((1::int) \<le> 101 \<and> (101::int) \<le> 100)" by simp
  have h2: "(1::int) \<le> 30 \<and> (30::int) \<le> 100 \<and>
      9 \<notin> set (map u_telegram_id (users (run plain_table init_db calls_funded)))"
    by (simp add: run_funded user_a_def user_b_def)
  have h3: "(1::int) \<le> 60 \<and> (60::int) \<le> 100 \<and>
      get_points (run plain_table init_db calls_funded) 1 = Inr 50 \<and> (50::int) < 60"
    by (simp add: run_funded user_a_def user_b_def get_points_def select_users_def)
  from create_request_failures [where U = plain_table and p = 101
      and s = "run plain_table init_db calls_funded" and now = "''2024-01-01T10:02:00''"
      and t = 1 and uid = "''2476897412''" and region = "[105, 110, 100]"
      and url = "''https://example.com/p''" and p' = 30 and t' = 9
      and s' = "run plain_table init_db calls_funded" and now' = "''2024-01-01T10:02:00''"
      and uid' = "''2476897412''" and region' = "[105, 110, 100]"
      and url' = "''https://example.com/p''" and q = 60
      and z = "run plain_table init_db calls_funded" and tz = 1 and b = 50
      and nowz = "''2024-01-01T10:02:00''" and uidz = "''2476897412''"
      and regionz = "[105, 110, 100]" and urlz = "''https://example.com/p''"] h1 h2 h3
  show ?thesis by blast
qed



text \<open>
  C10. In a reachable database, the sum of all balances plus the stakes of the requests with
  status \<open>open\<close> or \<open>claimed\<close> is left unchanged by create, claim and confirm, whether they
  succeed or fail. Register adds a row of balance 0 and so leaves the sum as it is; an admin
  call changes it by exactly its \<open>points\<close> when it succeeds and not at all when it fails.
\<close>

theorem points_conserved:
  "all_points (snd (post_request_create U (run U init_db cs) now t uid region url p)) =
     all_points (run U init_db cs) \<and>
   all_points (snd (claim (run U init_db cs) t rid)) = all_points (run U init_db cs) \<and>
   all_points (snd (confirm (run U init_db cs) now t rid url)) = all_points (run U init_db cs) \<and>
   all_points (snd (register (run U init_db cs) now t n)) = all_points (run U init_db cs) \<and>
   all_points (snd (admin_add_points (run U init_db cs) t d secret)) =
     all_points (run U init_db cs) +
       (if fst (admin_add_points (run U init_db cs) t d secret) = Inr ''Points added successfully''
        then d else 0)"
  using consistent_reachable [of U cs]
  by (simp add: supply_create supply_claim supply_confirm supply_register supply_admin)

theorem points_conserved_witness:
  "all_points (snd (confirm (run plain_table init_db calls_claimed) ''2024-01-01T10:05:00'' 2 1
      ''https://example.com/done'')) = all_points (run plain_table init_db calls_claimed) \<and>
   all_points (run plain_table init_db calls_claimed) = 50"
proof -
  have "all_points (run plain_table init_db calls_claimed) = 50"
    by (simp add: run_claimed all_points_def total_points_def escrow_def user_a_def user_b_def
          request_1_def)
  with points_conserved [of plain_table calls_claimed "''2024-01-01T10:05:00''" 2]
  show ?thesis by blast
qed

text \<open>
  C1, as the program has it. The admin endpoint adds its \<open>points\<close> to the balance without a
  check, so a negative \<open>points\<close> can leave a balance below zero: after A registers, an admin
  call with \<open>points = -5\<close> leaves A's balance at \<open>-5\<close>.
\<close>

theorem admin_drives_balance_negative:
  "get_points (run plain_table init_db [Register ''2024-01-01T10:00:00'' 1 (Some ''A''),
      AdminAddPoints 1 (- 5) ''CHANGE_THIS_SECRET'']) 1 = Inr (- 5)"
  by (simp add: init_db_def endpoint_defs)

text \<open>
  C1, amended. After any sequence of register, create, claim, confirm and admin calls in which
  no admin call has a negative \<open>points\<close>, every user row has a balance of at least 0, and so
  has every balance \<open>get_points\<close> returns.
\<close>

theorem balances_nonnegative:
  assumes "\<forall>c \<in> set cs. adds_only c"
  shows "(\<forall>u \<in> set (users (run U init_db cs)). 0 \<le> u_points u) \<and>
    (\<forall>t b. get_points (run U init_db cs) t = Inr b \<longrightarrow> 0 \<le> b)"
proof -
  have "nonnegative init_db" by (simp add: nonnegative_def init_db_def)
  from nonnegative_run [OF consistent_init this assms]
  have n: "\<forall>u \<in> set (users (run U init_db cs)). 0 \<le> u_points u" by (simp add: nonnegative_def)
  have "0 \<le> b" if "get_points (run U init_db cs) t = Inr b" for t b
  proof -
    from that obtain u us where sel: "select_users (run U init_db cs) t = u # us" and "u_points u = b"
      by (auto simp: get_points_def split: list.splits)
    with select_users_hd [OF sel] n show ?thesis by auto
  qed
  with n show ?thesis by blast
qed

theorem balances_nonnegative_witness:
  "list_all adds_only calls_claimed \<and>
   get_points (run plain_table init_db calls_claimed) 1 = Inr (u_points (user_a 20)) \<and>
   0 \<le> u_points (user_a 20)"
proof -
  have l: "list_all adds_only calls_claimed"
    by (simp add: calls_claimed_def calls_open_def calls_funded_def)
  then have h: "\<forall>c \<in> set calls_claimed. adds_only c" by (simp add: list_all_iff)
  have g: "get_points (run plain_table init_db calls_claimed) 1 = Inr (u_points (user_a 20))"
    by (simp add: run_claimed get_points_def select_users_def user_a_def user_b_def)
  from balances_nonnegative [OF h] g have "0 \<le> u_points (user_a 20)" by blast
  with l g show ?thesis by blast
qed

text \<open>
  C5. In a reachable database every request has one of the statuses \<open>open\<close>, \<open>claimed\<close>,
  \<open>completed\<close>. After any one call the request with the same id is still there, once, with
  the same \<open>points_requested\<close>, with the same \<open>claimed_by\<close> if it had one, and with a
  status that is the same or the next one (\<open>open\<close> to \<open>claimed\<close>, \<open>claimed\<close> to
  \<open>completed\<close>); after any sequence of calls the same holds with a status that is not
  earlier in the lifecycle.
\<close>

theorem request_lifecycle:
  assumes "s = run U init_db cs" and "r \<in> set (requests s)"
  shows "(r_status r = ''open'' \<or> r_status r = ''claimed'' \<or> r_status r = ''completed'') \<and>
    (\<forall>c. \<exists>r'. select_requests (exec U s c) (r_id r) = [r'] \<and> keeps r r' \<and>
       forward (r_status r) (r_status r')) \<and>
    (\<forall>cs'. \<exists>r'. select_requests (run U s cs') (r_id r) = [r'] \<and> keeps r r' \<and>
       status_rank (r_status r) \<le> status_rank (r_status r'))"
proof -
  have c: "consistent s" unfolding assms(1) by (rule consistent_reachable)
  with assms(2) have "r_status r = ''open'' \<or> r_status r = ''claimed'' \<or> r_status r = ''completed''"
    by (auto simp: consistent_def request_ok_def)
  with step_exec [OF c assms(2)] steps_run [OF c assms(2)] show ?thesis by blast
qed

theorem request_lifecycle_witness:
  "request_1 ''open'' None \<in> set (requests (run plain_table init_db calls_open)) \<and>
   select_requests (exec plain_table (run plain_table init_db calls_open) (RequestClaim 2 1))
     (r_id (request_1 ''open'' None)) = [request_1 ''claimed'' (Some 2)] \<and>
   forward (r_status (request_1 ''open'' None)) (r_status (request_1 ''claimed'' (Some 2))) \<and>
   r_points_requested (request_1 ''claimed'' (Some 2)) =
     r_points_requested (request_1 ''open'' None)"
proof -
  have m: "request_1 ''open'' None \<in> set (requests (run plain_table init_db calls_open))"
    by (simp add: run_open)
  have e: "select_requests (exec plain_table (run plain_table init_db calls_open) (RequestClaim 2 1))
     (r_id (request_1 ''open'' None)) = [request_1 ''claimed'' (Some 2)]"
    by (simp add: run_open endpoint_defs request_1_def user_a_def user_b_def)
  from request_lifecycle [OF refl m] obtain r' where
    "select_requests (exec plain_table (run plain_table init_db calls_open) (RequestClaim 2 1))
       (r_id (request_1 ''open'' None)) = [r']"
    "keeps (request_1 ''open'' None) r'"
    "forward (r_status (request_1 ''open'' None)) (r_status r')"
    by blast
  with e have "keeps (request_1 ''open'' None) (request_1 ''claimed'' (Some 2))"
    "forward (r_status (request_1 ''open'' None)) (r_status (request_1 ''claimed'' (Some 2)))"
    by simp_all
  then have "forward (r_status (request_1 ''open'' None))
      (r_status (request_1 ''claimed'' (Some 2)))"
    "r_points_requested (request_1 ''claimed'' (Some 2)) =
      r_points_requested (request_1 ''open'' None)"
    by (simp_all add: keeps_def)
  with m e show ?thesis by blast
qed



end
